theory Spec2Isabelle
  imports Complex_Main "HOL-Library.Word"
begin

unbundle bit_operations_syntax

section \<open>Numbers, typed arrays and outcomes\<close>

text \<open>
  A JavaScript Number that holds a sample or an intermediate result is modelled as
  \<open>Some r\<close> for a finite value \<open>r\<close> and \<open>None\<close> for NaN. Arithmetic on finite values is
  exact real arithmetic (the rounding of IEEE doubles is not modelled), and NaN propagates
  through every operator, as it does in the source language. Infinite values have no
  representation: buffers are taken to hold finite samples or NaN, and on such inputs the
  only divisions by zero in the modelled code are \<open>0 / 0\<close>, which is NaN.
\<close>

type_synonym num = "real option"

datatype error = RangeError

text \<open>What running a piece of code can do: return a value, throw, or never return.\<close>

datatype 'a outcome = Returns 'a | Throws error | Diverges

text \<open>
  \<open>new Float32Array(n)\<close> and \<open>new Float64Array(n)\<close> for an integral \<open>n\<close>: a zero-filled
  array, or a RangeError when \<open>n\<close> is negative. How much memory an engine is able to
  allocate is outside the model: every non-negative length is granted.
\<close>

definition new_array :: "int \<Rightarrow> error + num list" where
  "new_array n =
     (if n < 0 then Inl RangeError else Inr (replicate (nat n) (Some 0)))"

text \<open>
  \<open>a.subarray(b, e)\<close>: a negative index counts from the end, and both indices are clamped
  to the array.
\<close>

definition rel_index :: "nat \<Rightarrow> int \<Rightarrow> nat" where
  "rel_index len k = (if k < 0 then nat (max (int len + k) 0) else min (nat k) len)"

definition subarray :: "'a list \<Rightarrow> int \<Rightarrow> int \<Rightarrow> 'a list" where
  "subarray a b e =
     (let b' = rel_index (length a) b; e' = rel_index (length a) e
      in take (e' - b') (drop b' a))"

text \<open>
  \<open>dst.set(src, offset)\<close>: copies \<open>src\<close> into \<open>dst\<close> from \<open>offset\<close> on, or throws a
  RangeError when \<open>src\<close> does not fit.
\<close>

definition set_at :: "'a list \<Rightarrow> 'a list \<Rightarrow> int \<Rightarrow> error + 'a list" where
  "set_at dst src offset =
     (if offset < 0 \<or> int (length dst) < offset + int (length src) then Inl RangeError
      else Inr (take (nat offset) dst @ src @ drop (nat offset + length src) dst))"

text \<open>
  Reading \<open>a[i]\<close> from a typed array: out of range the read gives \<open>undefined\<close>, which
  every arithmetic use below turns into NaN. Writing out of range is ignored.
\<close>

definition arr_get :: "num list \<Rightarrow> int \<Rightarrow> num" where
  "arr_get a i = (if 0 \<le> i \<and> i < int (length a) then a ! nat i else None)"

definition arr_put :: "num list \<Rightarrow> int \<Rightarrow> num \<Rightarrow> num list" where
  "arr_put a i v = (if 0 \<le> i \<and> i < int (length a) then a[nat i := v] else a)"

text \<open>The arithmetic of Numbers: exact on finite values, NaN as soon as an operand is NaN.\<close>

fun nadd :: "num \<Rightarrow> num \<Rightarrow> num" where
  "nadd (Some a) (Some b) = Some (a + b)"
| "nadd _ _ = None"

fun nsub :: "num \<Rightarrow> num \<Rightarrow> num" where
  "nsub (Some a) (Some b) = Some (a - b)"
| "nsub _ _ = None"

fun nmul :: "num \<Rightarrow> num \<Rightarrow> num" where
  "nmul (Some a) (Some b) = Some (a * b)"
| "nmul _ _ = None"

text \<open>\<open>Math.hypot(a, b)\<close>.\<close>

fun nhypot :: "num \<Rightarrow> num \<Rightarrow> num" where
  "nhypot (Some a) (Some b) = Some (sqrt (a\<^sup>2 + b\<^sup>2))"
| "nhypot _ _ = None"

subsection \<open>32-bit integer operators\<close>

text \<open>
  The shift operators convert their left operand to a signed 32-bit integer, take the shift
  count modulo 32 and give a signed 32-bit result. \<open>Math.clz32\<close> counts the leading zero
  bits of the operand converted to an unsigned 32-bit integer.
\<close>

definition shl32 :: "int \<Rightarrow> int \<Rightarrow> int" where
  "shl32 a n = sint (push_bit (nat (n mod 32)) (word_of_int a :: 32 word))"

definition sar32 :: "int \<Rightarrow> int \<Rightarrow> int" where
  "sar32 a n = sint (signed_drop_bit (nat (n mod 32)) (word_of_int a :: 32 word))"

function bit_length :: "nat \<Rightarrow> nat" where
  "bit_length n = (if n = 0 then 0 else 1 + bit_length (n div 2))"
  by pat_completeness auto
termination
  by (relation "measure (\<lambda>n. n)") auto

definition clz32 :: "int \<Rightarrow> int" where
  "clz32 x = 32 - int (bit_length (unat (word_of_int x :: 32 word)))"

section \<open>Capture: accumulating chunks (record3sPCM)\<close>

text \<open>\<open>targetFrames = Math.ceil(durationSec * sampleRate)\<close>.\<close>

definition targetFrames :: "real \<Rightarrow> real \<Rightarrow> int" where
  "targetFrames durationSec sampleRate = \<lceil>durationSec * sampleRate\<rceil>"

text \<open>
  The \<open>for (const c of chunks)\<close> loop of the message handler, with the array being filled
  and the write offset as state.
\<close>

fun copy_chunks :: "int \<Rightarrow> num list list \<Rightarrow> num list \<Rightarrow> int \<Rightarrow> error + num list" where
  "copy_chunks tf [] samples offset = Inr samples"
| "copy_chunks tf (c # cs) samples offset =
     (let copyCount = min (int (length c)) (tf - offset)
      in case set_at samples (if copyCount = int (length c) then c else subarray c 0 copyCount)
                offset of
           Inl e \<Rightarrow> Inl e
         | Inr samples' \<Rightarrow>
             (let offset' = offset + copyCount
              in if offset' \<ge> tf then Inr samples' else copy_chunks tf cs samples' offset'))"

text \<open>
  The state the handler closes over: the chunks received, their total length, and the
  value the promise was resolved with (\<open>None\<close> while it is pending).
\<close>

record recorder =
  chunks :: "num list list"
  collected :: int
  resolved :: "(num list \<times> real) option"

definition recorder_init :: recorder where
  "recorder_init = \<lparr>chunks = [], collected = 0, resolved = None\<rparr>"

definition onMsg :: "int \<Rightarrow> real \<Rightarrow> recorder \<Rightarrow> num list \<Rightarrow> error + recorder" where
  "onMsg tf sampleRate st chunk =
     (let chunks' = chunks st @ [chunk];
          collected' = collected st + int (length chunk);
          st' = st\<lparr>chunks := chunks', collected := collected'\<rparr>
      in if collected' \<ge> tf then
           (case new_array tf of
              Inl e \<Rightarrow> Inl e
            | Inr samples \<Rightarrow>
                (case copy_chunks tf chunks' samples 0 of
                   Inl e \<Rightarrow> Inl e
                 | Inr samples' \<Rightarrow> Inr (st'\<lparr>resolved := Some (samples', sampleRate)\<rparr>)))
         else Inr st')"

text \<open>
  The messages of the worklet, delivered in arrival order. Resolving runs \<open>cleanup\<close>, which
  detaches the handler, so later messages reach nothing.
\<close>

fun deliver :: "int \<Rightarrow> real \<Rightarrow> recorder \<Rightarrow> num list list \<Rightarrow> error + recorder" where
  "deliver tf sampleRate st [] = Inr st"
| "deliver tf sampleRate st (c # cs) =
     (if resolved st \<noteq> None then Inr st
      else case onMsg tf sampleRate st c of
             Inl e \<Rightarrow> Inl e
           | Inr st' \<Rightarrow> deliver tf sampleRate st' cs)"

definition record3sPCM :: "real \<Rightarrow> real \<Rightarrow> num list list \<Rightarrow> error + recorder" where
  "record3sPCM durationSec sampleRate msgs =
     deliver (targetFrames durationSec sampleRate) sampleRate recorder_init msgs"

definition total :: "'a list list \<Rightarrow> int" where
  "total cs = int (length (concat cs))"

section \<open>Spectral analysis (nextPow2, applyHann, fftComplex, SpectrumCanvas)\<close>

text \<open>\<open>1 << (32 - Math.clz32(Math.max(1, n - 1)))\<close>.\<close>

definition nextPow2 :: "int \<Rightarrow> int" where
  "nextPow2 n = shl32 1 (32 - clz32 (max 1 (n - 1)))"

text \<open>
  The Hann weight \<open>0.5 * (1 - Math.cos((2 * Math.PI * n) / (N - 1)))\<close>. For \<open>N = 1\<close> the
  quotient is \<open>0 / 0\<close> at \<open>n = 0\<close> (and infinite at any other \<open>n\<close>), so the cosine and
  the weight are NaN.
\<close>

definition hann_weight :: "nat \<Rightarrow> nat \<Rightarrow> num" where
  "hann_weight N n =
     (if N = 1 then None else Some (0.5 * (1 - cos ((2 * pi * real n) / (real N - 1)))))"

function applyHann_loop :: "nat \<Rightarrow> num list \<Rightarrow> nat \<Rightarrow> num list" where
  "applyHann_loop N x n =
     (if n < N then
        (let w = hann_weight N n
         in applyHann_loop N (arr_put x (int n) (nmul (arr_get x (int n)) w)) (n + 1))
      else x)"
  by pat_completeness auto
termination
  by (relation "measure (\<lambda>(N, x, n). N - n)") auto

definition applyHann :: "num list \<Rightarrow> num list" where
  "applyHann x = applyHann_loop (length x) x 0"

subsection \<open>fftComplex\<close>

text \<open>
  The bit-reversal permutation. It runs on the arrays of length \<open>N\<close> that were allocated,
  so \<open>0 \<le> N\<close>, and \<open>N\<close> is at most \<open>2^30\<close>. Its counters are natural numbers below \<open>2^30\<close>:
  \<open>i\<close> counts up to \<open>N\<close>, \<open>m\<close> starts at \<open>N >> 1\<close> and is only shifted right, and \<open>j\<close> is built
  from \<open>0\<close> by \<open>^\<close> and \<open>|\<close> with such \<open>m\<close>. On that range the 32-bit operators \<open>&\<close>, \<open>^\<close>,
  \<open>|\<close> and \<open>>>\<close> are the bit operations on natural numbers.
\<close>

function bitrev_while :: "nat \<Rightarrow> nat \<Rightarrow> nat \<times> nat" where
  "bitrev_while j m =
     (if j AND m \<noteq> 0 then bitrev_while (j XOR m) (drop_bit 1 m) else (j, m))"
  by pat_completeness auto
termination
proof (relation "measure (\<lambda>(j, m). m)")
  show "wf (measure (\<lambda>(j, m). m))" by simp
next
  fix j m :: nat
  assume "j AND m \<noteq> 0"
  then have "m \<noteq> 0" by (cases "m = 0") simp_all
  then show "((j XOR m, drop_bit 1 m), (j, m)) \<in> measure (\<lambda>(j, m). m)"
    by (simp add: drop_bit_eq_div)
qed

function bitrev_loop ::
  "int \<Rightarrow> nat \<Rightarrow> nat \<Rightarrow> num list \<times> num list \<Rightarrow> num list \<times> num list" where
  "bitrev_loop N i j ri =
     (if int i < N then
        (let re = fst ri; im = snd ri;
             ri' = (if i < j then
                      (let tr = arr_get re (int i);
                           ti = arr_get im (int i);
                           re1 = arr_put re (int i) (arr_get re (int j));
                           im1 = arr_put im (int i) (arr_get im (int j))
                       in (arr_put re1 (int j) tr, arr_put im1 (int j) ti))
                    else (re, im));
             jm = bitrev_while j (nat (sar32 N 1))
         in bitrev_loop N (i + 1) (fst jm OR snd jm) ri')
      else ri)"
  by pat_completeness auto
termination
  by (relation "measure (\<lambda>(N, i, j, ri). nat N - i)") auto

text \<open>
  The twiddle step \<open>wpr = Math.cos(theta)\<close>, \<open>wpi = Math.sin(theta)\<close> for
  \<open>theta = (-2 * Math.PI) / size\<close>. For \<open>size = 0\<close> the angle is infinite and both are NaN.
\<close>

definition twiddle_cos :: "int \<Rightarrow> num" where
  "twiddle_cos sz = (if sz = 0 then None else Some (cos ((- 2 * pi) / real_of_int sz)))"

definition twiddle_sin :: "int \<Rightarrow> num" where
  "twiddle_sin sz = (if sz = 0 then None else Some (sin ((- 2 * pi) / real_of_int sz)))"

text \<open>One butterfly: the body of the innermost loop, on the arrays and the twiddle factor.\<close>

definition butterfly ::
  "int \<Rightarrow> int \<Rightarrow> num \<times> num \<Rightarrow> num list \<times> num list \<Rightarrow> num list \<times> num list" where
  "butterfly i0 i1 w ri =
     (let wr = fst w; wi = snd w; re = fst ri; im = snd ri;
          tr = nsub (nmul wr (arr_get re i1)) (nmul wi (arr_get im i1));
          ti = nadd (nmul wr (arr_get im i1)) (nmul wi (arr_get re i1));
          re1 = arr_put re i1 (nsub (arr_get re i0) tr);
          im1 = arr_put im i1 (nsub (arr_get im i0) ti);
          re2 = arr_put re1 i0 (nadd (arr_get re1 i0) tr);
          im2 = arr_put im1 i0 (nadd (arr_get im1 i0) ti)
      in (re2, im2))"

text \<open>\<open>w *= wstep\<close>: the next twiddle factor.\<close>

definition twiddle_next :: "num \<times> num \<Rightarrow> num \<times> num \<Rightarrow> num \<times> num" where
  "twiddle_next wp w =
     (let wpr = fst wp; wpi = snd wp; wr = fst w; wi = snd w;
          wrNext = nsub (nmul wr wpr) (nmul wi wpi);
          wi' = nadd (nmul wr wpi) (nmul wi wpr)
      in (wrNext, wi'))"


function k_loop ::
  "int \<Rightarrow> int \<Rightarrow> num \<times> num \<Rightarrow> int \<Rightarrow> num \<times> num \<Rightarrow> num list \<times> num list
     \<Rightarrow> num list \<times> num list" where
  "k_loop start half wp k w ri =
     (if k < half then
        (let i0 = start + k; i1 = i0 + half
         in k_loop start half wp (k + 1) (twiddle_next wp w) (butterfly i0 i1 w ri))
      else ri)"
  by pat_completeness auto
termination
  by (relation "measure (\<lambda>(start, half, wp, k, w, ri). nat (half - k))") auto

text \<open>
  The loops over \<open>start\<close> and over \<open>size\<close> need not end (\<open>start += size\<close> makes no
  progress for \<open>size \<le> 0\<close>, and \<open>size <<= 1\<close> wraps around at 32 bits), so they are
  partial: \<open>None\<close> is a run that never returns.
\<close>

partial_function (option) start_loop ::
  "int \<Rightarrow> int \<Rightarrow> int \<Rightarrow> num \<times> num \<Rightarrow> int \<Rightarrow> num list \<times> num list
     \<Rightarrow> (num list \<times> num list) option" where
  "start_loop N sz half wp start ri =
     (if start < N then
        start_loop N sz half wp (start + sz) (k_loop start half wp 0 (Some 1, Some 0) ri)
      else Some ri)"

partial_function (option) size_loop ::
  "int \<Rightarrow> int \<Rightarrow> num list \<times> num list \<Rightarrow> (num list \<times> num list) option" where
  "size_loop N sz ri =
     (if sz \<le> N then
        (let half = sar32 sz 1;
             wp = (twiddle_cos sz, twiddle_sin sz)
         in case start_loop N sz half wp 0 ri of
              None \<Rightarrow> None
            | Some ri' \<Rightarrow> size_loop N (shl32 sz 1) ri')
      else Some ri)"

declare start_loop.simps [code]
declare size_loop.simps [code]

definition fftComplex :: "num list \<Rightarrow> (num list \<times> num list) outcome" where
  "fftComplex realIn =
     (let N = nextPow2 (int (length realIn))
      in case new_array N of
           Inl e \<Rightarrow> Throws e
         | Inr zeros \<Rightarrow>
             (case set_at zeros (subarray realIn 0 (min N (int (length realIn)))) 0 of
                Inl e \<Rightarrow> Throws e
              | Inr re \<Rightarrow>
                  (case size_loop N 2 (bitrev_loop N 0 0 (re, zeros)) of
                     None \<Rightarrow> Diverges
                   | Some ri \<Rightarrow> Returns ri)))"

subsection \<open>The magnitude spectrum of SpectrumCanvas\<close>

datatype windowing = Hann | NoWindow

text \<open>\<open>for (let i = 0; i < copyCount; i++) x[i] = samples[i]\<close>.\<close>

function copy_loop :: "int \<Rightarrow> num list \<Rightarrow> num list \<Rightarrow> int \<Rightarrow> num list" where
  "copy_loop copyCount samples x i =
     (if i < copyCount then copy_loop copyCount samples (arr_put x i (arr_get samples i)) (i + 1)
      else x)"
  by pat_completeness auto
termination
  by (relation "measure (\<lambda>(copyCount, samples, x, i). nat (copyCount - i))") auto

text \<open>\<open>for (let k = 0; k < half; k++) mags[k] = Math.hypot(re[k], im[k])\<close>.\<close>

function hypot_loop :: "int \<Rightarrow> num list \<times> num list \<Rightarrow> num list \<Rightarrow> int \<Rightarrow> num list" where
  "hypot_loop half ri mags k =
     (if k < half then
        hypot_loop half ri (arr_put mags k (nhypot (arr_get (fst ri) k) (arr_get (snd ri) k))) (k + 1)
      else mags)"
  by pat_completeness auto
termination
  by (relation "measure (\<lambda>(half, ri, mags, k). nat (half - k))") auto

text \<open>
  \<open>for (let k = 0; k < half; k++) mags[k] = (mags[k] * 2) / N\<close>. The body runs only for
  \<open>0 < half\<close>, hence \<open>N \<ge> 2\<close>: the divisor is not zero.
\<close>

function scale_loop :: "int \<Rightarrow> int \<Rightarrow> num list \<Rightarrow> int \<Rightarrow> num list" where
  "scale_loop N half mags k =
     (if k < half then
        scale_loop N half
          (arr_put mags k (map_option (\<lambda>m. (m * 2) / real_of_int N) (arr_get mags k))) (k + 1)
      else mags)"
  by pat_completeness auto
termination
  by (relation "measure (\<lambda>(N, half, mags, k). nat (half - k))") auto

text \<open>
  The body of the \<open>useMemo\<close> of SpectrumCanvas, as a function of the buffer, the FFT size
  and the window choice. It returns \<open>mags\<close>; the bin width \<open>sampleRate / N\<close> that the
  source returns beside it is one division that does not depend on the buffer and is left
  out.
\<close>

definition analyze :: "num list \<Rightarrow> int \<Rightarrow> windowing \<Rightarrow> num list outcome" where
  "analyze samples fftSize windowing =
     (let N = fftSize
      in case new_array N of
           Inl e \<Rightarrow> Throws e
         | Inr x0 \<Rightarrow>
             (let copyCount = min N (int (length samples));
                  x1 = copy_loop copyCount samples x0 0;
                  x = (if windowing = Hann then applyHann x1 else x1)
              in case fftComplex x of
                   Throws e \<Rightarrow> Throws e
                 | Diverges \<Rightarrow> Diverges
                 | Returns ri \<Rightarrow>
                     (let half = N div 2
                      in case new_array half of
                           Inl e \<Rightarrow> Throws e
                         | Inr mags0 \<Rightarrow>
                             Returns (scale_loop N half (hypot_loop half ri mags0 0) 0))))"

text \<open>
  Closed forms of the two ends of \<open>analyze\<close>, proved below to be what its loops compute:
  the segment (the first \<open>N\<close> samples of the buffer, padded with zeros to length \<open>N\<close>) and
  the magnitudes \<open>(Math.hypot(re[k], im[k]) * 2) / N\<close> of the first \<open>floor(N / 2)\<close> bins.
\<close>

definition segment :: "num list \<Rightarrow> int \<Rightarrow> num list" where
  "segment samples N = take (nat N) samples @ replicate (nat N - length samples) (Some 0)"

definition apply_window :: "windowing \<Rightarrow> num list \<Rightarrow> num list" where
  "apply_window windowing x = (if windowing = Hann then applyHann x else x)"

definition magnitude :: "int \<Rightarrow> num \<Rightarrow> num \<Rightarrow> num" where
  "magnitude N re_k im_k = map_option (\<lambda>m. (m * 2) / real_of_int N) (nhypot re_k im_k)"

definition magnitudes :: "int \<Rightarrow> num list \<times> num list \<Rightarrow> num list" where
  "magnitudes N ri =
     map (\<lambda>k. magnitude N (arr_get (fst ri) (int k)) (arr_get (snd ri) (int k)))
       [0..<nat (N div 2)]"

section \<open>Sampling and quantization (SamplingCanvas)\<close>

text \<open>
  The component is rendered only with a sample rate that is not zero; it is the rate of the
  audio context, a positive number. \<open>targetRate\<close>, \<open>bits\<close>, \<open>winMs\<close> and \<open>startSample\<close>
  are the integers that the sliders set. The drawing effect returns at once when the page
  has no canvas; the model is the computation that it runs otherwise.
\<close>

definition windowSamples :: "nat \<Rightarrow> real \<Rightarrow> int \<Rightarrow> int" where
  "windowSamples len sampleRate winMs =
     max 256 (min (int len) \<lfloor>(real_of_int winMs / 1000) * sampleRate\<rfloor>)"

definition clampedStart :: "nat \<Rightarrow> int \<Rightarrow> int \<Rightarrow> int" where
  "clampedStart len ws startSample = max 0 (min startSample (max 0 (int len - ws)))"

text \<open>\<open>maxInt = (1 << (bits - 1)) - 1\<close>.\<close>

definition maxInt_of :: "int \<Rightarrow> int" where
  "maxInt_of bits = shl32 1 (bits - 1) - 1"

text \<open>\<open>Math.max(-1, Math.min(1, x))\<close>.\<close>

definition clamp1 :: "num \<Rightarrow> num" where
  "clamp1 x = map_option (\<lambda>v. max (- 1) (min 1 v)) x"

text \<open>
  What both drawing loops compute for the output index \<open>i\<close>: the time, the source index,
  the quantization code and the reconstructed amplitude. For \<open>targetRate = 0\<close> the only
  index is \<open>0\<close>, and \<open>0 / 0\<close> makes the time and the source index NaN; for \<open>maxInt = 0\<close>
  the code is \<open>0\<close> and \<open>0 / 0\<close> makes the amplitude NaN.
\<close>

record qpoint =
  q_index :: int
  q_time :: num
  q_src :: "int option"
  q_code :: "int option"
  q_amp :: num

definition quantize_at :: "num list \<Rightarrow> real \<Rightarrow> int \<Rightarrow> int \<Rightarrow> int \<Rightarrow> qpoint" where
  "quantize_at samples sampleRate targetRate maxInt i =
     (let t = (if targetRate = 0 then None
               else Some (real_of_int i / real_of_int targetRate));
          srcIdx = (if targetRate = 0 then None
                    else Some (min (int (length samples) - 1)
                                   (round ((real_of_int i * sampleRate) / real_of_int targetRate))));
          v = clamp1 (case srcIdx of None \<Rightarrow> None | Some k \<Rightarrow> arr_get samples k);
          q = map_option (\<lambda>a. round (a * real_of_int maxInt)) v;
          vq = (case q of
                  None \<Rightarrow> None
                | Some c \<Rightarrow> if maxInt = 0 then None
                           else Some (real_of_int c / real_of_int maxInt))
      in \<lparr>q_index = i, q_time = t, q_src = srcIdx, q_code = q, q_amp = vq\<rparr>)"

text \<open>
  The two loops \<open>for (let i = iStart; i <= iEnd; i++)\<close>. The pixel coordinates are affine
  images of the time and the amplitude that depend on the canvas; the model keeps the time
  and the amplitude themselves. The first loop draws the zero-order-hold curve, the second
  one stem for each output point.
\<close>

datatype path_cmd = MoveTo num num | LineTo num num

function zoh_loop ::
  "num list \<Rightarrow> real \<Rightarrow> int \<Rightarrow> int \<Rightarrow> int \<Rightarrow> int \<Rightarrow> bool \<times> num \<Rightarrow> path_cmd list
     \<Rightarrow> path_cmd list" where
  "zoh_loop samples sampleRate targetRate maxInt iEnd i prev path =
     (if i \<le> iEnd then
        (let p = quantize_at samples sampleRate targetRate maxInt i;
             x = q_time p; y = q_amp p;
             path' = (if \<not> fst prev then path @ [MoveTo x y]
                      else path @ [LineTo x (snd prev), LineTo x y])
         in zoh_loop samples sampleRate targetRate maxInt iEnd (i + 1) (True, y) path')
      else path)"
  by pat_completeness auto
termination
  by (relation "measure (\<lambda>(samples, sampleRate, targetRate, maxInt, iEnd, i, prev, path).
        nat (iEnd + 1 - i))") auto

function stems_loop ::
  "num list \<Rightarrow> real \<Rightarrow> int \<Rightarrow> int \<Rightarrow> int \<Rightarrow> int \<Rightarrow> qpoint list \<Rightarrow> qpoint list" where
  "stems_loop samples sampleRate targetRate maxInt iEnd i acc =
     (if i \<le> iEnd then
        stems_loop samples sampleRate targetRate maxInt iEnd (i + 1)
          (acc @ [quantize_at samples sampleRate targetRate maxInt i])
      else acc)"
  by pat_completeness auto
termination
  by (relation "measure (\<lambda>(samples, sampleRate, targetRate, maxInt, iEnd, i, acc).
        nat (iEnd + 1 - i))") auto

record qtrace =
  zoh :: "path_cmd list"
  stems :: "qpoint list"

definition simulate_trace :: "num list \<Rightarrow> real \<Rightarrow> int \<Rightarrow> int \<Rightarrow> int \<Rightarrow> int \<Rightarrow> qtrace" where
  "simulate_trace samples sampleRate targetRate bits winMs startSample =
     (let ws = windowSamples (length samples) sampleRate winMs;
          cs = clampedStart (length samples) ws startSample;
          endSample = cs + ws;
          startTime = real_of_int cs / sampleRate;
          endTimeSec = real_of_int endSample / sampleRate;
          maxInt = maxInt_of bits;
          iStart = \<lceil>startTime * real_of_int targetRate\<rceil>;
          iEnd = \<lfloor>endTimeSec * real_of_int targetRate\<rfloor>
      in \<lparr>zoh = zoh_loop samples sampleRate targetRate maxInt iEnd iStart (False, Some 0) [],
          stems = stems_loop samples sampleRate targetRate maxInt iEnd iStart []\<rparr>)"

text \<open>The first and the last output index of the view, as \<open>simulate_trace\<close> computes them.\<close>

definition iStart_of :: "num list \<Rightarrow> real \<Rightarrow> int \<Rightarrow> int \<Rightarrow> int \<Rightarrow> int" where
  "iStart_of samples sampleRate targetRate winMs startSample =
     \<lceil>real_of_int (clampedStart (length samples)
          (windowSamples (length samples) sampleRate winMs) startSample) / sampleRate
       * real_of_int targetRate\<rceil>"

definition iEnd_of :: "num list \<Rightarrow> real \<Rightarrow> int \<Rightarrow> int \<Rightarrow> int \<Rightarrow> int" where
  "iEnd_of samples sampleRate targetRate winMs startSample =
     \<lfloor>real_of_int (clampedStart (length samples)
          (windowSamples (length samples) sampleRate winMs) startSample
          + windowSamples (length samples) sampleRate winMs) / sampleRate
       * real_of_int targetRate\<rfloor>"

text \<open>
  The outcome of the computation. No statement of it throws: \<open>bits\<close> and \<open>targetRate\<close> are
  used as they come, with no check; a read outside the buffer gives \<open>undefined\<close> and a
  division by zero gives NaN, neither of which is an exception.
\<close>

definition simulate ::
  "num list \<Rightarrow> real \<Rightarrow> int \<Rightarrow> int \<Rightarrow> int \<Rightarrow> int \<Rightarrow> qtrace outcome" where
  "simulate samples sampleRate targetRate bits winMs startSample =
     Returns (simulate_trace samples sampleRate targetRate bits winMs startSample)"


declare bit_length.simps [simp del]
declare applyHann_loop.simps [simp del]
declare bitrev_while.simps [simp del]
declare bitrev_loop.simps [simp del]
declare k_loop.simps [simp del]
declare copy_loop.simps [simp del]
declare hypot_loop.simps [simp del]
declare scale_loop.simps [simp del]
declare zoh_loop.simps [simp del]
declare stems_loop.simps [simp del]

section \<open>Proofs: 32-bit operators on small values\<close>

lemma sint32_id: "- (2 ^ 31) \<le> k \<Longrightarrow> k < 2 ^ 31 \<Longrightarrow> sint (word_of_int k :: 32 word) = k"
  by (simp add: sint_sbintrunc' signed_take_bit_int_eq_self)

lemma shl32_small:
  assumes "0 \<le> n" "n < 32" "- (2 ^ 31) \<le> a * 2 ^ nat n" "a * 2 ^ nat n < 2 ^ 31"
  shows "shl32 a n = a * 2 ^ nat n"
proof -
  have "push_bit (nat (n mod 32)) (word_of_int a :: 32 word) = word_of_int (a * 2 ^ nat n)"
    using assms(1,2) by (simp add: push_bit_eq_mult)
  then have "shl32 a n = sint (word_of_int (a * 2 ^ nat n) :: 32 word)"
    by (simp only: shl32_def)
  then show ?thesis using assms(3,4) sint32_id [of "a * 2 ^ nat n"] by simp
qed

lemma sar32_small:
  assumes "0 \<le> n" "n < 32" "- (2 ^ 31) \<le> a" "a < 2 ^ 31"
  shows "sar32 a n = a div 2 ^ nat n"
  using assms by (simp add: sar32_def sint_signed_drop_bit_eq sint32_id drop_bit_eq_div)

section \<open>Proofs: capture\<close>

lemma total_simps [simp]: "total [] = 0" "total (c # cs) = int (length c) + total cs"
  "total (xs @ ys) = total xs + total ys"
  by (simp_all add: total_def)

lemma total_nonneg: "0 \<le> total cs"
  by (simp add: total_def)




lemma deliver_pending:
  assumes "resolved st = None" "collected st + total pre < tf"
  shows "deliver tf sr st (pre @ rest) =
           deliver tf sr (st\<lparr>chunks := chunks st @ pre, collected := collected st + total pre\<rparr>) rest"
  using assms
proof (induction pre arbitrary: st)
  case Nil
  then show ?case by simp
next
  case (Cons c pre)
  let ?st' = "st\<lparr>chunks := chunks st @ [c], collected := collected st + int (length c)\<rparr>"
  have lt: "collected st + int (length c) < tf"
    using Cons.prems total_nonneg [of pre] by (simp add: algebra_simps)
  then have step: "onMsg tf sr st c = Inr ?st'"
    by (simp add: onMsg_def Let_def)
  have "deliver tf sr ?st' (pre @ rest) =
          deliver tf sr (?st'\<lparr>chunks := chunks ?st' @ pre,
                               collected := collected ?st' + total pre\<rparr>) rest"
    using Cons.prems by (intro Cons.IH) (simp_all add: algebra_simps)
  then show ?case using Cons.prems step by (simp add: algebra_simps)
qed





text \<open>Below the target frame count the promise stays pending.\<close>

lemma record3sPCM_pending:
  assumes "total msgs < targetFrames durationSec sampleRate"
  shows "\<exists>st. record3sPCM durationSec sampleRate msgs = Inr st \<and> resolved st = None"
  using deliver_pending [of recorder_init msgs "targetFrames durationSec sampleRate" sampleRate "[]"] assms
  by (simp add: record3sPCM_def recorder_init_def)



section \<open>Proofs: sampling and quantization\<close>

lemma maxInt_of_eq:
  assumes "1 \<le> bits" "bits \<le> 31"
  shows "maxInt_of bits = 2 ^ nat (bits - 1) - 1"
proof -
  have "(2::int) ^ nat (bits - 1) \<le> 2 ^ 30"
    using assms by (intro power_increasing) auto
  moreover have "- (2 ^ 31) \<le> (2::int) ^ nat (bits - 1)"
    by (rule order_trans [of _ 0]) simp_all
  ultimately have "shl32 1 (bits - 1) = 1 * 2 ^ nat (bits - 1)"
    using assms by (intro shl32_small) auto
  then show ?thesis by (simp add: maxInt_of_def)
qed

lemma stems_loop_map:
  "stems_loop samples sr tr mx iEnd i acc = acc @ map (quantize_at samples sr tr mx) [i..iEnd]"
proof (induction samples sr tr mx iEnd i acc rule: stems_loop.induct)
  case (1 samples sr tr mx iEnd i acc)
  show ?case
  proof (cases "i \<le> iEnd")
    case True
    then have "[i..iEnd] = i # [i + 1..iEnd]" by (simp add: upto_rec1)
    with True 1 show ?thesis by (subst stems_loop.simps) simp
  next
    case False
    then show ?thesis by (subst stems_loop.simps) simp
  qed
qed

text \<open>The code of a finite amplitude lies in the symmetric range, and so does its reconstruction.\<close>

lemma round_clamp_range:
  fixes a :: real and M :: int
  assumes "0 < M"
  shows "- M \<le> round (max (- 1) (min 1 a) * real_of_int M)"
    and "round (max (- 1) (min 1 a) * real_of_int M) \<le> M"
proof -
  let ?v = "max (- 1) (min 1 a)"
  have v: "- 1 \<le> ?v" "?v \<le> 1" by simp_all
  have lo: "real_of_int (- M) \<le> ?v * real_of_int M"
    using v(1) assms mult_right_mono [of "- 1" ?v "real_of_int M"] by simp
  have hi: "?v * real_of_int M \<le> real_of_int M"
    using v(2) assms mult_right_mono [of ?v 1 "real_of_int M"] by simp
  have "round (real_of_int (- M)) \<le> round (?v * real_of_int M)"
    using lo by (rule round_mono)
  then show "- M \<le> round (?v * real_of_int M)"
    using round_of_int [where ?'a = real, of "- M"] by simp
  have "round (?v * real_of_int M) \<le> round (real_of_int M)"
    using hi by (rule round_mono)
  then show "round (?v * real_of_int M) \<le> M" by simp
qed


lemma quantize_at_finite:
  assumes "targetRate \<noteq> 0" "0 < maxInt"
    and "arr_get samples (min (int (length samples) - 1)
            (round ((real_of_int i * sampleRate) / real_of_int targetRate))) = Some a"
  shows "\<exists>c. q_code (quantize_at samples sampleRate targetRate maxInt i) = Some c
           \<and> c = round (max (- 1) (min 1 a) * real_of_int maxInt)
           \<and> - maxInt \<le> c \<and> c \<le> maxInt
           \<and> q_amp (quantize_at samples sampleRate targetRate maxInt i)
               = Some (real_of_int c / real_of_int maxInt)
           \<and> - 1 \<le> real_of_int c / real_of_int maxInt
           \<and> real_of_int c / real_of_int maxInt \<le> 1"
proof -
  let ?c = "round (max (- 1) (min 1 a) * real_of_int maxInt)"
  have r: "- maxInt \<le> ?c" "?c \<le> maxInt"
    using round_clamp_range [OF assms(2), of a] by simp_all
  have "- 1 \<le> real_of_int ?c / real_of_int maxInt"
    using r(1) assms(2) by (simp add: pos_le_divide_eq)
  moreover have "real_of_int ?c / real_of_int maxInt \<le> 1"
    using r(2) assms(2) by (simp add: pos_divide_le_eq)
  ultimately show ?thesis
    using assms r by (simp add: quantize_at_def clamp1_def Let_def)
qed

lemma stems_simulate_trace:
  "stems (simulate_trace samples sampleRate targetRate bits winMs startSample) =
     map (quantize_at samples sampleRate targetRate (maxInt_of bits))
       [iStart_of samples sampleRate targetRate winMs startSample
        ..iEnd_of samples sampleRate targetRate winMs startSample]"
  by (simp add: simulate_trace_def Let_def stems_loop_map iStart_of_def iEnd_of_def)

lemma clampedStart_nonneg: "0 \<le> clampedStart len ws startSample"
  by (simp add: clampedStart_def)

lemma iStart_nonneg:
  assumes "0 < sampleRate" "0 < targetRate"
  shows "0 \<le> iStart_of samples sampleRate targetRate winMs startSample"
proof -
  have "0 \<le> real_of_int (clampedStart (length samples)
          (windowSamples (length samples) sampleRate winMs) startSample) / sampleRate
       * real_of_int targetRate"
    using assms clampedStart_nonneg by simp
  then show ?thesis unfolding iStart_of_def by (simp add: ceiling_le_iff le_ceiling_iff)
qed

lemma source_index_in_range:
  assumes "0 < sampleRate" "0 < targetRate" "samples \<noteq> []" "0 \<le> i"
  shows "0 \<le> min (int (length samples) - 1)
                 (round ((real_of_int i * sampleRate) / real_of_int targetRate))"
    and "min (int (length samples) - 1)
                 (round ((real_of_int i * sampleRate) / real_of_int targetRate))
          < int (length samples)"
proof -
  have "0 \<le> (real_of_int i * sampleRate) / real_of_int targetRate"
    using assms by simp
  then have "round (0::real) \<le> round ((real_of_int i * sampleRate) / real_of_int targetRate)"
    by (rule round_mono)
  moreover have "0 < length samples" using assms(3) by simp
  ultimately show "0 \<le> min (int (length samples) - 1)
                 (round ((real_of_int i * sampleRate) / real_of_int targetRate))"
    by simp
  show "min (int (length samples) - 1)
                 (round ((real_of_int i * sampleRate) / real_of_int targetRate))
          < int (length samples)"
    by simp
qed

lemma arr_get_finite:
  assumes "None \<notin> set samples" "0 \<le> k" "k < int (length samples)"
  shows "\<exists>a. arr_get samples k = Some a"
proof -
  have "samples ! nat k \<in> set samples" using assms(2,3) by simp
  then have "samples ! nat k \<noteq> None" using assms(1) by metis
  then show ?thesis using assms(2,3) by (auto simp add: arr_get_def)
qed

lemma stems_points_in_range:
  assumes "2 \<le> bits" "bits \<le> 31" "0 < sampleRate" "0 < targetRate"
    and "samples \<noteq> []" "None \<notin> set samples"
  shows "\<exists>tr. simulate samples sampleRate targetRate bits winMs startSample = Returns tr
           \<and> (\<forall>p \<in> set (stems tr). \<exists>c.
                 q_code p = Some c
               \<and> - (2 ^ nat (bits - 1) - 1) \<le> c \<and> c \<le> 2 ^ nat (bits - 1) - 1
               \<and> q_amp p = Some (real_of_int c / (2 ^ nat (bits - 1) - 1))
               \<and> - 1 \<le> real_of_int c / (2 ^ nat (bits - 1) - 1)
               \<and> real_of_int c / (2 ^ nat (bits - 1) - 1) \<le> (1::real))"
proof -
  let ?M = "maxInt_of bits"
  have M: "?M = 2 ^ nat (bits - 1) - 1" using assms(1,2) by (simp add: maxInt_of_eq)
  have "(2::int) ^ 1 \<le> 2 ^ nat (bits - 1)"
    using assms(1) by (intro power_increasing) auto
  then have Mpos: "0 < ?M" using M by simp
  have Mreal: "real_of_int ?M = 2 ^ nat (bits - 1) - 1" using M by simp
  {
    fix p
    assume "p \<in> set (stems (simulate_trace samples sampleRate targetRate bits winMs startSample))"
    then obtain i where i: "iStart_of samples sampleRate targetRate winMs startSample \<le> i"
      and p: "p = quantize_at samples sampleRate targetRate ?M i"
      by (auto simp add: stems_simulate_trace)
    have "0 \<le> i" using i iStart_nonneg [OF assms(3,4)] by (rule order_trans [rotated])
    then obtain a where "arr_get samples (min (int (length samples) - 1)
            (round ((real_of_int i * sampleRate) / real_of_int targetRate))) = Some a"
      using arr_get_finite [OF assms(6)] source_index_in_range [OF assms(3,4,5)] by blast
    then have "\<exists>c. q_code p = Some c
           \<and> c = round (max (- 1) (min 1 a) * real_of_int ?M)
           \<and> - ?M \<le> c \<and> c \<le> ?M
           \<and> q_amp p = Some (real_of_int c / real_of_int ?M)
           \<and> - 1 \<le> real_of_int c / real_of_int ?M
           \<and> real_of_int c / real_of_int ?M \<le> 1"
      unfolding p using assms(4) Mpos by (intro quantize_at_finite) simp_all
    then have "\<exists>c. q_code p = Some c
               \<and> - (2 ^ nat (bits - 1) - 1) \<le> c \<and> c \<le> 2 ^ nat (bits - 1) - 1
               \<and> q_amp p = Some (real_of_int c / (2 ^ nat (bits - 1) - 1))
               \<and> - 1 \<le> real_of_int c / (2 ^ nat (bits - 1) - 1)
               \<and> real_of_int c / (2 ^ nat (bits - 1) - 1) \<le> (1::real)"
      unfolding Mreal unfolding M by blast
  }
  then show ?thesis by (simp add: simulate_def)
qed

text \<open>
  Claim C7. For a bit depth from 2 to 31 (the contract asks for 2 to 24), a positive sample
  rate and target rate and a buffer of finite samples, every output point of simulate has a
  quantization code in the symmetric range \<open>[-(2^(bits-1) - 1), 2^(bits-1) - 1]\<close>, and its
  reconstructed amplitude \<open>code / (2^(bits-1) - 1)\<close> lies in \<open>[-1, 1]\<close>, whatever the
  amplitudes of the buffer are.
\<close>

theorem quantization_range:
  assumes "2 \<le> bits" "bits \<le> 31" "0 < sampleRate" "0 < targetRate"
    and "samples \<noteq> []" "None \<notin> set samples"
  shows "\<exists>tr. simulate samples sampleRate targetRate bits winMs startSample = Returns tr
           \<and> (\<forall>p \<in> set (stems tr). \<exists>c.
                 q_code p = Some c
               \<and> - (2 ^ nat (bits - 1) - 1) \<le> c \<and> c \<le> 2 ^ nat (bits - 1) - 1
               \<and> q_amp p = Some (real_of_int c / (2 ^ nat (bits - 1) - 1))
               \<and> - 1 \<le> real_of_int c / (2 ^ nat (bits - 1) - 1)
               \<and> real_of_int c / (2 ^ nat (bits - 1) - 1) \<le> (1::real))"
  using assms by (rule stems_points_in_range)

theorem quantization_range_witness:
  "(2::int) \<le> 8 \<and> (8::int) \<le> 31 \<and> (0::real) < 48000 \<and> (0::int) < 8000
   \<and> [Some 2, Some (- 1 / 2)] \<noteq> [] \<and> None \<notin> set [Some 2, Some (- 1 / 2)]
   \<and> (\<exists>tr. simulate [Some 2, Some (- 1 / 2)] 48000 8000 8 100 0 = Returns tr
           \<and> (\<forall>p \<in> set (stems tr). \<exists>c.
                 q_code p = Some c \<and> - 127 \<le> c \<and> c \<le> 127
               \<and> q_amp p = Some (real_of_int c / 127)
               \<and> - 1 \<le> real_of_int c / 127 \<and> real_of_int c / 127 \<le> (1::real)))"
  using quantization_range [of 8 48000 8000 "[Some 2, Some (- 1 / 2)]" 100 0]
  by simp











text \<open>
  What the unchecked parameters lead to: a negative target rate gives an empty trace, and
  a bit depth of 1 gives \<open>maxInt = 0\<close> and amplitudes that are NaN.
\<close>

lemma windowSamples_pos: "0 < windowSamples len sampleRate winMs"
  by (simp add: windowSamples_def)

lemma simulate_negative_rate:
  assumes "0 < sampleRate" "targetRate < 0"
  shows "stems (simulate_trace samples sampleRate targetRate bits winMs startSample) = []"
proof -
  let ?ws = "windowSamples (length samples) sampleRate winMs"
  let ?cs = "clampedStart (length samples) ?ws startSample"
  have "real_of_int ?cs < real_of_int (?cs + ?ws)"
    using windowSamples_pos [of "length samples" sampleRate winMs] by simp
  then have "real_of_int ?cs / sampleRate < real_of_int (?cs + ?ws) / sampleRate"
    using assms(1) by (simp add: divide_strict_right_mono)
  moreover have "real_of_int targetRate < 0" using assms(2) by simp
  ultimately have lt: "real_of_int (?cs + ?ws) / sampleRate * real_of_int targetRate
          < real_of_int ?cs / sampleRate * real_of_int targetRate"
    by (rule mult_strict_right_mono_neg)
  have "real_of_int (iEnd_of samples sampleRate targetRate winMs startSample)
          \<le> real_of_int (?cs + ?ws) / sampleRate * real_of_int targetRate"
    unfolding iEnd_of_def by (rule of_int_floor_le)
  moreover have "real_of_int ?cs / sampleRate * real_of_int targetRate
          \<le> real_of_int (iStart_of samples sampleRate targetRate winMs startSample)"
    unfolding iStart_of_def by (rule le_of_int_ceiling)
  ultimately have "iEnd_of samples sampleRate targetRate winMs startSample
          < iStart_of samples sampleRate targetRate winMs startSample"
    using lt by linarith
  then show ?thesis by (simp add: stems_simulate_trace)
qed

lemma quantize_at_one_bit:
  "maxInt_of 1 = 0"
  "q_amp (quantize_at samples sampleRate targetRate 0 i) = None"
  by (simp_all add: maxInt_of_def shl32_def quantize_at_def Let_def split: option.splits)









section \<open>Proofs: the loops of the spectral analysis\<close>

lemma length_arr_put [simp]: "length (arr_put a i v) = length a"
  by (simp add: arr_put_def)

lemma arr_get_nth: "n < length a \<Longrightarrow> arr_get a (int n) = a ! n"
  by (simp add: arr_get_def)

lemma arr_put_nth: "n < length a \<Longrightarrow> arr_put a (int n) v = a[n := v]"
  by (simp add: arr_put_def)

lemma applyHann_loop_eq:
  "length x = N \<Longrightarrow> n \<le> N \<Longrightarrow>
     applyHann_loop N x n =
       take n x @ map (\<lambda>k. nmul (x ! k) (hann_weight N k)) [n..<N]"
proof (induction N x n rule: applyHann_loop.induct)
  case (1 N x n)
  show ?case
  proof (cases "n < N")
    case True
    let ?x' = "x[n := nmul (x ! n) (hann_weight N n)]"
    have step: "applyHann_loop N x n = applyHann_loop N ?x' (n + 1)"
      using True "1.prems" by (subst applyHann_loop.simps) (simp add: arr_get_nth arr_put_nth)
    have "applyHann_loop N ?x' (n + 1) =
            take (n + 1) ?x' @ map (\<lambda>k. nmul (?x' ! k) (hann_weight N k)) [n + 1..<N]"
      using True "1.prems" "1.IH" [OF True refl]
      by (simp add: arr_get_nth arr_put_nth)
    moreover have "take (n + 1) ?x' = take n x @ [nmul (x ! n) (hann_weight N n)]"
      using True "1.prems" by (simp add: take_Suc_conv_app_nth)
    moreover have "map (\<lambda>k. nmul (?x' ! k) (hann_weight N k)) [n + 1..<N]
                     = map (\<lambda>k. nmul (x ! k) (hann_weight N k)) [n + 1..<N]"
      by (rule map_cong) simp_all
    moreover have "[n..<N] = n # [n + 1..<N]"
      using True by (simp add: upt_conv_Cons)
    ultimately show ?thesis using step by simp
  next
    case False
    then show ?thesis using "1.prems" by (subst applyHann_loop.simps) simp
  qed
qed

lemma applyHann_eq: "applyHann x = map (\<lambda>k. nmul (x ! k) (hann_weight (length x) k)) [0..<length x]"
  by (simp add: applyHann_def applyHann_loop_eq)

lemma length_applyHann [simp]: "length (applyHann x) = length x"
  by (simp add: applyHann_eq)

lemma applyHann_nth:
  "n < length x \<Longrightarrow> applyHann x ! n = nmul (x ! n) (hann_weight (length x) n)"
  by (simp add: applyHann_eq)


lemma copy_loop_eq:
  "nat cc \<le> length x \<Longrightarrow> 0 \<le> i \<Longrightarrow> i \<le> cc \<Longrightarrow>
     copy_loop cc samples x i =
       take (nat i) x @ map (\<lambda>j. arr_get samples (int j)) [nat i..<nat cc] @ drop (nat cc) x"
proof (induction cc samples x i rule: copy_loop.induct)
  case (1 cc samples x i)
  show ?case
  proof (cases "i < cc")
    case True
    let ?x' = "arr_put x i (arr_get samples i)"
    have "i < int (length x)" using True "1.prems" by linarith
    then have x': "?x' = x[nat i := arr_get samples i]"
      using "1.prems" by (simp add: arr_put_def)
    have "copy_loop cc samples ?x' (i + 1) =
            take (nat (i + 1)) ?x' @ map (\<lambda>j. arr_get samples (int j)) [nat (i + 1)..<nat cc]
              @ drop (nat cc) ?x'"
      using True "1.prems" by (intro "1.IH") simp_all
    moreover have "take (nat (i + 1)) ?x' = take (nat i) x @ [arr_get samples i]"
      using True "1.prems" unfolding x'
      by (simp add: nat_add_distrib take_Suc_conv_app_nth)
    moreover have "drop (nat cc) ?x' = drop (nat cc) x"
      using True "1.prems" unfolding x' by simp
    moreover have "[nat i..<nat cc] = nat i # [nat (i + 1)..<nat cc]"
      using True "1.prems" by (simp add: upt_conv_Cons nat_add_distrib)
    ultimately show ?thesis
      using True "1.prems" by (subst copy_loop.simps) simp
  next
    case False
    then show ?thesis using "1.prems" by (subst copy_loop.simps) simp
  qed
qed

lemma map_nth_take: "n \<le> length xs \<Longrightarrow> map (\<lambda>j. arr_get xs (int j)) [0..<n] = take n xs"
  by (rule nth_equalityI) (simp_all add: arr_get_def)

lemma segment_eq:
  assumes "0 \<le> N"
  shows "copy_loop (min N (int (length samples))) samples (replicate (nat N) (Some 0)) 0
           = segment samples N"
proof -
  let ?cc = "min N (int (length samples))"
  have "copy_loop ?cc samples (replicate (nat N) (Some 0)) 0 =
          take (nat 0) (replicate (nat N) (Some 0))
          @ map (\<lambda>j. arr_get samples (int j)) [nat 0..<nat ?cc]
          @ drop (nat ?cc) (replicate (nat N) (Some 0))"
    using assms by (intro copy_loop_eq) simp_all
  moreover have "map (\<lambda>j. arr_get samples (int j)) [0..<nat ?cc] = take (nat ?cc) samples"
    by (rule map_nth_take) simp
  moreover have "take (nat ?cc) samples = take (nat N) samples"
    by (cases "N \<le> int (length samples)") (simp_all add: min_def)
  moreover have "nat N - nat ?cc = nat N - length samples"
    by (cases "N \<le> int (length samples)") (simp_all add: min_def)
  ultimately show ?thesis by (simp add: segment_def)
qed

lemma length_segment [simp]: "length (segment samples N) = nat N"
  by (simp add: segment_def)

lemma hypot_loop_eq:
  "length mags = nat half \<Longrightarrow> 0 \<le> k \<Longrightarrow> k \<le> half \<Longrightarrow>
     hypot_loop half ri mags k =
       take (nat k) mags
       @ map (\<lambda>j. nhypot (arr_get (fst ri) (int j)) (arr_get (snd ri) (int j))) [nat k..<nat half]"
proof (induction half ri mags k rule: hypot_loop.induct)
  case (1 half ri mags k)
  show ?case
  proof (cases "k < half")
    case True
    let ?v = "nhypot (arr_get (fst ri) k) (arr_get (snd ri) k)"
    let ?m' = "arr_put mags k ?v"
    have inr: "k < int (length mags)" using True "1.prems" by linarith
    then have m': "?m' = mags[nat k := ?v]"
      using "1.prems" by (simp add: arr_put_def)
    have "hypot_loop half ri ?m' (k + 1) =
            take (nat (k + 1)) ?m'
            @ map (\<lambda>j. nhypot (arr_get (fst ri) (int j)) (arr_get (snd ri) (int j)))
                [nat (k + 1)..<nat half]"
      using True "1.prems" by (intro "1.IH") simp_all
    moreover have "take (nat (k + 1)) ?m' = take (nat k) mags @ [?v]"
      using True "1.prems" unfolding m'
      by (simp add: nat_add_distrib take_Suc_conv_app_nth)
    moreover have "[nat k..<nat half] = nat k # [nat (k + 1)..<nat half]"
      using True "1.prems" by (simp add: upt_conv_Cons nat_add_distrib)
    ultimately show ?thesis
      using True "1.prems" by (subst hypot_loop.simps) simp
  next
    case False
    then show ?thesis using "1.prems" by (subst hypot_loop.simps) simp
  qed
qed

lemma scale_loop_eq:
  "length mags = nat half \<Longrightarrow> 0 \<le> k \<Longrightarrow> k \<le> half \<Longrightarrow>
     scale_loop N half mags k =
       take (nat k) mags
       @ map (\<lambda>j. map_option (\<lambda>m. (m * 2) / real_of_int N) (mags ! j)) [nat k..<nat half]"
proof (induction N half mags k rule: scale_loop.induct)
  case (1 N half mags k)
  show ?case
  proof (cases "k < half")
    case True
    let ?v = "map_option (\<lambda>m. (m * 2) / real_of_int N) (arr_get mags k)"
    let ?m' = "arr_put mags k ?v"
    have inr: "k < int (length mags)" using True "1.prems" by linarith
    then have m': "?m' = mags[nat k := ?v]"
      using "1.prems" by (simp add: arr_put_def)
    have v: "?v = map_option (\<lambda>m. (m * 2) / real_of_int N) (mags ! nat k)"
      using inr "1.prems" by (simp add: arr_get_def)
    have "scale_loop N half ?m' (k + 1) =
            take (nat (k + 1)) ?m'
            @ map (\<lambda>j. map_option (\<lambda>m. (m * 2) / real_of_int N) (?m' ! j))
                [nat (k + 1)..<nat half]"
      using True "1.prems" by (intro "1.IH") simp_all
    moreover have "take (nat (k + 1)) ?m' = take (nat k) mags @ [?v]"
      using True "1.prems" unfolding m'
      by (simp add: nat_add_distrib take_Suc_conv_app_nth)
    moreover have "map (\<lambda>j. map_option (\<lambda>m. (m * 2) / real_of_int N) (?m' ! j))
                [nat (k + 1)..<nat half]
          = map (\<lambda>j. map_option (\<lambda>m. (m * 2) / real_of_int N) (mags ! j))
                [nat (k + 1)..<nat half]"
      unfolding m' using True "1.prems" by (intro map_cong) (simp_all add: nat_add_distrib)
    moreover have "[nat k..<nat half] = nat k # [nat (k + 1)..<nat half]"
      using True "1.prems" by (simp add: upt_conv_Cons nat_add_distrib)
    ultimately show ?thesis
      using True "1.prems" v by (subst scale_loop.simps) simp
  next
    case False
    then show ?thesis using "1.prems" by (subst scale_loop.simps) simp
  qed
qed

lemma magnitudes_eq:
  assumes "0 \<le> N"
  shows "scale_loop N (N div 2)
           (hypot_loop (N div 2) ri (replicate (nat (N div 2)) (Some 0)) 0) 0
         = magnitudes N ri"
proof -
  let ?h = "N div 2"
  have h: "0 \<le> ?h" using assms by simp
  let ?hy = "map (\<lambda>j. nhypot (arr_get (fst ri) (int j)) (arr_get (snd ri) (int j))) [0..<nat ?h]"
  have "hypot_loop ?h ri (replicate (nat ?h) (Some 0)) 0 =
          take (nat 0) (replicate (nat ?h) (Some 0)) @
          map (\<lambda>j. nhypot (arr_get (fst ri) (int j)) (arr_get (snd ri) (int j))) [nat 0..<nat ?h]"
    using h by (intro hypot_loop_eq) simp_all
  then have hy: "hypot_loop ?h ri (replicate (nat ?h) (Some 0)) 0 = ?hy" by simp
  have "scale_loop N ?h ?hy 0 =
          take (nat 0) ?hy
          @ map (\<lambda>j. map_option (\<lambda>m. (m * 2) / real_of_int N) (?hy ! j)) [nat 0..<nat ?h]"
    using h by (intro scale_loop_eq) simp_all
  also have "\<dots> = magnitudes N ri"
    by (simp add: magnitudes_def magnitude_def)
  finally show ?thesis using hy by simp
qed

lemma analyze_eq:
  assumes "0 \<le> N"
  shows "analyze samples N windowing =
           (case fftComplex (apply_window windowing (segment samples N)) of
              Returns ri \<Rightarrow> Returns (magnitudes N ri)
            | Throws e \<Rightarrow> Throws e
            | Diverges \<Rightarrow> Diverges)"
proof -
  have h: "0 \<le> N div 2" using assms by simp
  show ?thesis
    using assms h
    by (simp add: analyze_def new_array_def Let_def segment_eq magnitudes_eq apply_window_def
          split: outcome.splits)
qed

lemma analyze_negative: "N < 0 \<Longrightarrow> analyze samples N windowing = Throws RangeError"
  by (simp add: analyze_def new_array_def)

section \<open>Proofs: nextPow2 and the termination of fftComplex\<close>

lemma bit_length_0: "bit_length 0 = 0"
  by (subst bit_length.simps) simp

lemma bit_length_rec: "0 < n \<Longrightarrow> bit_length n = Suc (bit_length (n div 2))"
  by (subst bit_length.simps) simp

lemma bit_length_bounds:
  "0 < n \<Longrightarrow> 2 ^ (bit_length n - 1) \<le> n \<and> n < 2 ^ bit_length n"
proof (induction n rule: bit_length.induct)
  case (1 n)
  show ?case
  proof (cases "n div 2 = 0")
    case True
    then have "n = 1" using "1.prems" by linarith
    then have "bit_length n = 1" by (simp add: bit_length_rec bit_length_0)
    then show ?thesis using \<open>n = 1\<close> by simp
  next
    case False
    then have ih: "2 ^ (bit_length (n div 2) - 1) \<le> n div 2" "n div 2 < 2 ^ bit_length (n div 2)"
      using "1.IH" "1.prems" by simp_all
    have pos: "0 < bit_length (n div 2)"
      using False by (simp add: bit_length_rec)
    have eq: "bit_length n = Suc (bit_length (n div 2))"
      using "1.prems" by (rule bit_length_rec)
    have "2 ^ bit_length (n div 2) = (2::nat) * 2 ^ (bit_length (n div 2) - 1)"
      using pos by (cases "bit_length (n div 2)") simp_all
    then have "2 ^ (bit_length n - 1) \<le> n" using ih(1) eq by simp
    moreover have "n < 2 ^ bit_length n" using ih(2) eq by simp
    ultimately show ?thesis by simp
  qed
qed

lemma bit_length_le:
  assumes "0 < n" "n < 2 ^ k"
  shows "bit_length n \<le> k"
proof (rule ccontr)
  assume "\<not> bit_length n \<le> k"
  then have "k \<le> bit_length n - 1" by simp
  then have "(2::nat) ^ k \<le> 2 ^ (bit_length n - 1)" by (intro power_increasing) simp_all
  then show False using bit_length_bounds [OF assms(1)] assms(2) by linarith
qed

lemma bit_length_pos: "0 < n \<Longrightarrow> 0 < bit_length n"
  by (simp add: bit_length_rec)

lemma nextPow2_small:
  assumes "n \<le> 2 ^ K" "1 \<le> K" "K \<le> 30"
  shows "\<exists>k. 1 \<le> k \<and> k \<le> K \<and> nextPow2 n = 2 ^ k \<and> n \<le> 2 ^ k \<and> (2 < n \<longrightarrow> 2 ^ (k - 1) < n)"
proof -
  let ?m = "max 1 (n - 1)"
  let ?b = "bit_length (nat ?m)"
  have "(2::int) ^ 1 \<le> 2 ^ K" using assms(2) by (intro power_increasing) simp_all
  then have m: "1 \<le> ?m" "?m < 2 ^ K" using assms(1) by simp_all
  have "(2::int) ^ K \<le> 2 ^ 30" using assms(3) by (intro power_increasing) simp_all
  then have m32: "?m < 2 ^ 32" using m(2) by simp
  have "uint (word_of_int ?m :: 32 word) = ?m"
    using m(1) m32 by (simp add: uint_word_of_int)
  then have un: "unat (word_of_int ?m :: 32 word) = nat ?m"
    by (simp add: unat_eq_nat_uint)
  have "nat ?m < 2 ^ K" using m by (simp add: nat_less_iff)
  then have bK: "?b \<le> K" using m(1) by (intro bit_length_le) simp_all
  have b1: "1 \<le> ?b" using bit_length_pos [of "nat ?m"] m(1) by simp
  have bb: "2 ^ (?b - 1) \<le> nat ?m" "nat ?m < 2 ^ ?b"
    using bit_length_bounds [of "nat ?m"] m(1) by simp_all
  have "(2::int) ^ ?b \<le> 2 ^ 30" using bK assms(3) by (intro power_increasing) simp_all
  moreover have "- (2 ^ 31) \<le> (2::int) ^ ?b" by (rule order_trans [of _ 0]) simp_all
  ultimately have "shl32 1 (int ?b) = 1 * 2 ^ nat (int ?b)"
    using bK assms(3) by (intro shl32_small) simp_all
  then have np: "nextPow2 n = 2 ^ ?b"
    by (simp add: nextPow2_def clz32_def un)
  have "?m < 2 ^ ?b" using bb(2) m(1) by (simp add: nat_less_iff)
  then have le: "n \<le> 2 ^ ?b" by simp
  have "2 < n \<longrightarrow> 2 ^ (?b - 1) < n"
  proof
    assume "2 < n"
    then have "nat ?m = nat (n - 1)" by simp
    then have "int (2 ^ (?b - 1)) \<le> n - 1" using bb(1) \<open>2 < n\<close> by linarith
    then show "2 ^ (?b - 1) < n" by simp
  qed
  then show ?thesis using b1 bK np le by blast
qed


lemma length_bitrev_loop:
  "length (fst (bitrev_loop N i j ri)) = length (fst ri)
   \<and> length (snd (bitrev_loop N i j ri)) = length (snd ri)"
proof (induction N i j ri rule: bitrev_loop.induct)
  case (1 N i j ri)
  show ?case
  proof (cases "int i < N")
    case True
    then show ?thesis
      using "1.IH" [OF True refl refl refl refl]
      by (subst bitrev_loop.simps, subst (2) bitrev_loop.simps) (simp add: Let_def)
  next
    case False
    then show ?thesis by (subst bitrev_loop.simps, subst (2) bitrev_loop.simps) simp
  qed
qed

lemma length_butterfly:
  "length (fst (butterfly i0 i1 w ri)) = length (fst ri)
   \<and> length (snd (butterfly i0 i1 w ri)) = length (snd ri)"
  by (simp add: butterfly_def Let_def)

lemma length_k_loop:
  "length (fst (k_loop start half wp k w ri)) = length (fst ri)
   \<and> length (snd (k_loop start half wp k w ri)) = length (snd ri)"
proof (induction start half wp k w ri rule: k_loop.induct)
  case (1 start half wp k w ri)
  show ?case
  proof (cases "k < half")
    case True
    then show ?thesis
      using "1.IH" [OF True refl refl] length_butterfly [of "start + k" "start + k + half" w ri]
      by (subst k_loop.simps, subst (2) k_loop.simps) (simp add: Let_def)
  next
    case False
    then show ?thesis by (subst k_loop.simps, subst (2) k_loop.simps) simp
  qed
qed

lemma start_loop_total:
  assumes "0 < sz"
  shows "\<exists>ri'. start_loop N sz half wp start ri = Some ri'
           \<and> length (fst ri') = length (fst ri) \<and> length (snd ri') = length (snd ri)"
proof (induction "nat (N - start)" arbitrary: start ri rule: less_induct)
  case less
  show ?case
  proof (cases "start < N")
    case True
    let ?ri = "k_loop start half wp 0 (Some 1, Some 0) ri"
    have "nat (N - (start + sz)) < nat (N - start)" using True assms by linarith
    then obtain ri' where "start_loop N sz half wp (start + sz) ?ri = Some ri'"
      "length (fst ri') = length (fst ?ri)" "length (snd ri') = length (snd ?ri)"
      using less [of "start + sz" ?ri] by blast
    then show ?thesis
      using True length_k_loop [of start half wp 0 "(Some 1, Some 0)" ri]
      by (subst start_loop.simps) simp
  next
    case False
    then show ?thesis by (subst start_loop.simps) simp
  qed
qed

lemma start_loop_Some_progress:
  assumes "start_loop N sz half wp start ri = Some y"
  shows "\<not> (sz \<le> 0 \<and> start < N)"
proof (rule start_loop.raw_induct
    [where P = "\<lambda>N sz half wp start ri y. \<not> (sz \<le> 0 \<and> start < N)", OF _ assms], goal_cases)
  case (1 f N sz half wp start ri y)
  show ?case
  proof
    assume a: "sz \<le> 0 \<and> start < N"
    then have "f N sz half wp (start + sz) (k_loop start half wp 0 (Some 1, Some 0) ri) = Some y"
      using "1"(2) by simp
    then have "\<not> (sz \<le> 0 \<and> start + sz < N)" by (rule "1"(1))
    then show False using a by linarith
  qed
qed

lemma start_loop_diverges:
  assumes "sz \<le> 0" "start < N"
  shows "start_loop N sz half wp start ri = None"
proof (rule ccontr)
  assume "start_loop N sz half wp start ri \<noteq> None"
  then obtain y where "start_loop N sz half wp start ri = Some y" by blast
  then show False using start_loop_Some_progress assms by blast
qed

lemma shl32_pow2: "j \<le> 29 \<Longrightarrow> shl32 (2 ^ j) 1 = 2 ^ (j + 1)"
proof -
  assume j: "j \<le> 29"
  have "(2::int) ^ (j + 1) \<le> 2 ^ 30" using j by (intro power_increasing) simp_all
  moreover have "- (2 ^ 31) \<le> (2::int) ^ (j + 1)" by (rule order_trans [of _ 0]) simp_all
  ultimately have "shl32 (2 ^ j) 1 = 2 ^ j * 2 ^ nat 1"
    by (intro shl32_small) simp_all
  then show ?thesis by simp
qed

lemma shl32_wraps: "shl32 (2 ^ 30) 1 = - (2 ^ 31)"
  by (simp add: shl32_def)

lemma size_loop_total:
  assumes "K \<le> 29" "1 \<le> j" "j \<le> K + 1"
  shows "\<exists>ri'. size_loop (2 ^ K) (2 ^ j) ri = Some ri'
           \<and> length (fst ri') = length (fst ri) \<and> length (snd ri') = length (snd ri)"
  using assms(2,3)
proof (induction "K + 1 - j" arbitrary: j ri rule: less_induct)
  case less
  show ?case
  proof (cases "j \<le> K")
    case True
    then have le: "(2::int) ^ j \<le> 2 ^ K" by (intro power_increasing) simp_all
    obtain ri1 where ri1: "start_loop (2 ^ K) (2 ^ j) (sar32 (2 ^ j) 1)
          (twiddle_cos (2 ^ j), twiddle_sin (2 ^ j)) 0 ri = Some ri1"
      "length (fst ri1) = length (fst ri)" "length (snd ri1) = length (snd ri)"
      using start_loop_total [of "2 ^ j" "2 ^ K" "sar32 (2 ^ j) 1"
          "(twiddle_cos (2 ^ j), twiddle_sin (2 ^ j))" 0 ri] by auto
    have sh: "shl32 (2 ^ j) 1 = 2 ^ (j + 1)" using True assms(1) by (intro shl32_pow2) simp
    have "K + 1 - (j + 1) < K + 1 - j" using True by simp
    then have "\<exists>ri'. size_loop (2 ^ K) (2 ^ (j + 1)) ri1 = Some ri'
           \<and> length (fst ri') = length (fst ri1) \<and> length (snd ri') = length (snd ri1)"
      using True by (intro less.hyps) simp_all
    then obtain ri' where "size_loop (2 ^ K) (2 ^ (j + 1)) ri1 = Some ri'"
      "length (fst ri') = length (fst ri1)" "length (snd ri') = length (snd ri1)"
      by blast
    then show ?thesis
      using le ri1 sh by (subst size_loop.simps) (simp add: Let_def)
  next
    case False
    then have "j = K + 1" using less.prems by simp
    then have "\<not> (2::int) ^ j \<le> 2 ^ K" by simp
    then show ?thesis by (subst size_loop.simps) simp
  qed
qed

lemma size_loop_diverges_wrapped: "size_loop (2 ^ 30) (- (2 ^ 31)) ri = None"
proof -
  have "start_loop (2 ^ 30) (- (2 ^ 31)) half wp 0 ri = None" for half wp
    by (rule start_loop_diverges) simp_all
  then show ?thesis by (subst size_loop.simps) (simp add: Let_def)
qed

lemma size_loop_diverges:
  assumes "1 \<le> j" "j \<le> 30"
  shows "size_loop (2 ^ 30) (2 ^ j) ri = None"
  using assms
proof (induction "30 - j" arbitrary: j ri rule: less_induct)
  case less
  have le: "(2::int) ^ j \<le> 2 ^ 30" using less.prems by (intro power_increasing) simp_all
  have next_None: "size_loop (2 ^ 30) (shl32 (2 ^ j) 1) ri1 = None" for ri1
  proof (cases "j = 30")
    case True
    then show ?thesis using shl32_wraps size_loop_diverges_wrapped by simp
  next
    case False
    then have "shl32 (2 ^ j) 1 = 2 ^ (j + 1)" using less.prems by (intro shl32_pow2) simp
    moreover have "30 - (j + 1) < 30 - j" using False less.prems by simp
    then have "size_loop (2 ^ 30) (2 ^ (j + 1)) ri1 = None"
      using False less.prems by (intro less.hyps) simp_all
    ultimately show ?thesis by simp
  qed
  show ?case
    using le next_None by (subst size_loop.simps) (simp add: Let_def split: option.splits)
qed


lemma subarray_whole: "subarray x 0 (int (length x)) = x"
  by (simp add: subarray_def rel_index_def Let_def)

lemma fftComplex_start:
  assumes "0 \<le> N" "nextPow2 (int (length x)) = N" "int (length x) \<le> N"
  shows "fftComplex x =
           (case size_loop N 2
                   (bitrev_loop N 0 0
                      (x @ replicate (nat N - length x) (Some 0), replicate (nat N) (Some 0))) of
              None \<Rightarrow> Diverges
            | Some ri \<Rightarrow> Returns ri)"
proof -
  have s: "set_at (replicate (nat N) (Some 0)) x 0 = Inr (x @ replicate (nat N - length x) (Some 0))"
    using assms(1,3) by (simp add: set_at_def)
  have m: "min N (int (length x)) = int (length x)" using assms(3) by simp
  have n: "new_array N = Inr (replicate (nat N) (Some 0))"
    using assms(1) by (simp add: new_array_def)
  show ?thesis
    unfolding fftComplex_def Let_def assms(2) m subarray_whole n by (simp add: s)
qed

lemma fftComplex_total:
  assumes "int (length x) \<le> 2 ^ 29"
  shows "\<exists>re im k. fftComplex x = Returns (re, im)
           \<and> int (length re) = nextPow2 (int (length x))
           \<and> int (length im) = nextPow2 (int (length x))
           \<and> nextPow2 (int (length x)) = 2 ^ k \<and> 1 \<le> k \<and> k \<le> 29
           \<and> int (length x) \<le> 2 ^ k \<and> (2 < length x \<longrightarrow> 2 ^ (k - 1) < int (length x))
           \<and> size_loop (2 ^ k) 2
                 (bitrev_loop (2 ^ k) 0 0
                    (x @ replicate (2 ^ k - length x) (Some 0), replicate (2 ^ k) (Some 0)))
               = Some (re, im)"
proof -
  obtain k where k: "1 \<le> k" "k \<le> 29" "nextPow2 (int (length x)) = 2 ^ k"
    "int (length x) \<le> 2 ^ k" "2 < int (length x) \<longrightarrow> 2 ^ (k - 1) < int (length x)"
    using nextPow2_small [of "int (length x)" 29] assms by auto
  let ?N = "(2::int) ^ k"
  let ?ri0 = "bitrev_loop ?N 0 0
                (x @ replicate (nat ?N - length x) (Some 0), replicate (nat ?N) (Some 0))"
  have natN: "nat ?N = 2 ^ k" by (simp add: nat_power_eq)
  have xl: "length x \<le> 2 ^ k" using k(4) by (metis natN nat_int nat_mono)
  have len0: "length (fst ?ri0) = 2 ^ k" "length (snd ?ri0) = 2 ^ k"
    using length_bitrev_loop [of ?N 0 0
        "(x @ replicate (nat ?N - length x) (Some 0), replicate (nat ?N) (Some 0))"] xl
    by (simp_all add: natN)
  obtain ri' where ri': "size_loop ?N (2 ^ 1) ?ri0 = Some ri'"
    "length (fst ri') = length (fst ?ri0)" "length (snd ri') = length (snd ?ri0)"
    using size_loop_total [of k 1 ?ri0] k(1,2) by auto
  have "fftComplex x = Returns ri'"
    using fftComplex_start [of ?N x] k(3,4) ri'(1) by simp
  then have "fftComplex x = Returns (fst ri', snd ri')" by simp
  moreover have "int (length (fst ri')) = 2 ^ k" "int (length (snd ri')) = 2 ^ k"
    using ri'(2,3) len0 by simp_all
  moreover have "size_loop (2 ^ k) 2
                 (bitrev_loop (2 ^ k) 0 0
                    (x @ replicate (2 ^ k - length x) (Some 0), replicate (2 ^ k) (Some 0)))
               = Some (fst ri', snd ri')"
    using ri'(1) by (simp add: natN)
  ultimately show ?thesis using k by (intro exI [of _ "fst ri'"] exI [of _ "snd ri'"] exI [of _ k]) simp
qed

lemma nextPow2_2_30:
  assumes "2 ^ 29 < n" "n \<le> 2 ^ 30"
  shows "nextPow2 n = 2 ^ 30"
proof -
  obtain k where k: "k \<le> 30" "nextPow2 n = 2 ^ k" "n \<le> 2 ^ k"
    using nextPow2_small [of n 30] assms(2) by auto
  have lt: "(2::int) ^ 29 < 2 ^ k" using assms(1) k(3) by linarith
  have "29 < k"
  proof (rule ccontr)
    assume "\<not> 29 < k"
    then have "(2::int) ^ k \<le> 2 ^ 29" by (intro power_increasing) simp_all
    then show False using lt by linarith
  qed
  then have "k = 30" using k(1) by simp
  then show ?thesis using k(2) by simp
qed

lemma fftComplex_diverges:
  assumes "2 ^ 29 < int (length x)" "int (length x) \<le> 2 ^ 30"
  shows "fftComplex x = Diverges"
proof -
  have "size_loop (2 ^ 30) (2 ^ 1) ri = None" for ri
    by (rule size_loop_diverges) simp_all
  then show ?thesis
    using fftComplex_start [of "2 ^ 30" x] nextPow2_2_30 [OF assms] assms(2) by simp
qed

lemma nextPow2_overflow: "nextPow2 (2 ^ 30 + 1) = - (2 ^ 31)"
  by (simp add: nextPow2_def clz32_def shl32_def bit_length_rec bit_length_0)

lemma fftComplex_throws:
  assumes "int (length x) = 2 ^ 30 + 1"
  shows "fftComplex x = Throws RangeError"
  using assms nextPow2_overflow by (simp add: fftComplex_def new_array_def)

lemma nextPow2_pow2:
  assumes "1 \<le> k" "k \<le> 30"
  shows "nextPow2 (2 ^ k) = 2 ^ k"
proof -
  obtain k' where k': "k' \<le> k" "nextPow2 (2 ^ k) = 2 ^ k'" "(2::int) ^ k \<le> 2 ^ k'"
    using nextPow2_small [of "2 ^ k" k] assms by auto
  have "k \<le> k'"
  proof (rule ccontr)
    assume "\<not> k \<le> k'"
    then have "(2::int) ^ k' < 2 ^ k" by (intro power_strict_increasing) simp_all
    then show False using k'(3) by linarith
  qed
  then show ?thesis using k'(1,2) by simp
qed

section \<open>Proofs: the claims on the spectral analysis\<close>

lemma nextPow2_3: "nextPow2 3 = 4"
  by (simp add: nextPow2_def clz32_def shl32_def bit_length_rec bit_length_0)

lemma shifts_4: "sar32 2 1 = 1" "sar32 4 1 = 2" "shl32 2 1 = 4" "shl32 4 1 = 8"
  by (simp_all add: sar32_def shl32_def)

lemma twiddles_4:
  "twiddle_cos 2 = Some (- 1)" "twiddle_sin 2 = Some 0"
  "twiddle_cos 4 = Some 0" "twiddle_sin 4 = Some (- 1)"
  by (simp_all add: twiddle_cos_def twiddle_sin_def)

lemma bitrev_impulse:
  "bitrev_loop 4 0 0 ([Some 1, Some 0, Some 0, Some 0], [Some 0, Some 0, Some 0, Some 0])
     = ([Some 1, Some 0, Some 0, Some 0], [Some 0, Some 0, Some 0, Some 0])"
  by (simp add: bitrev_loop.simps bitrev_while.simps shifts_4 arr_get_def arr_put_def Let_def)

lemma stage2_impulse:
  "start_loop 4 2 1 (Some (- 1), Some 0) 0
     ([Some 1, Some 0, Some 0, Some 0], [Some 0, Some 0, Some 0, Some 0])
   = Some ([Some 1, Some 1, Some 0, Some 0], [Some 0, Some 0, Some 0, Some 0])"
  by (simp add: start_loop.simps k_loop.simps butterfly_def twiddle_next_def arr_get_def
        arr_put_def Let_def)

lemma stage4_impulse:
  "start_loop 4 4 2 (Some 0, Some (- 1)) 0
     ([Some 1, Some 1, Some 0, Some 0], [Some 0, Some 0, Some 0, Some 0])
   = Some ([Some 1, Some 1, Some 1, Some 1], [Some 0, Some 0, Some 0, Some 0])"
  by (simp add: start_loop.simps k_loop.simps butterfly_def twiddle_next_def arr_get_def
        arr_put_def Let_def)

lemma size_loop_impulse:
  "size_loop 4 2 ([Some 1, Some 0, Some 0, Some 0], [Some 0, Some 0, Some 0, Some 0])
     = Some ([Some 1, Some 1, Some 1, Some 1], [Some 0, Some 0, Some 0, Some 0])"
  apply (subst size_loop.simps)
  apply (simp add: shifts_4 twiddles_4 stage2_impulse)
  apply (subst size_loop.simps)
  apply (simp add: shifts_4 twiddles_4 stage4_impulse)
  apply (subst size_loop.simps)
  apply simp
  done

lemma replicate_small:
  "replicate 2 v = [v, v]" "replicate 4 v = [v, v, v, v]"
  by (simp_all add: eval_nat_numeral)

lemma fftComplex_impulse:
  "fftComplex [Some 1, Some 0, Some 0] =
     Returns ([Some 1, Some 1, Some 1, Some 1], [Some 0, Some 0, Some 0, Some 0])"
  using fftComplex_start [of 4 "[Some 1, Some 0, Some 0]"]
  by (simp add: nextPow2_3 replicate_small bitrev_impulse size_loop_impulse)

text \<open>
  An FFT size that is not a power of two: with \<open>fft_size = 3\<close> analyze does not fail. The
  segment of three samples is padded to \<open>nextPow2(3) = 4\<close> points, and one magnitude comes
  back.
\<close>

theorem analyze_3_counterexample:
  "analyze [Some 1] 3 NoWindow = Returns [Some (2 / 3)] \<and> nextPow2 3 = 4"
  by (simp add: analyze_eq apply_window_def segment_def replicate_small fftComplex_impulse
        magnitudes_def magnitude_def arr_get_def nextPow2_3)


text \<open>
  Claim C10, amended. For every input array of length \<open>n\<close> with \<open>1 \<le> n \<le> 2^29\<close>,
  fftComplex returns: it neither throws nor runs forever. It pads the input with zeros to
  length \<open>nextPow2(n)\<close>, which is a power of two \<open>2^k \<ge> n\<close> (the least one when \<open>n > 2\<close>,
  and \<open>2\<close> for \<open>n \<le> 2\<close>), and the arrays \<open>re\<close> and \<open>im\<close> that it returns have exactly that
  length: a length that is not a power of two is rounded up, not reported.
\<close>

theorem fftComplex_pads_to_nextPow2:
  assumes "1 \<le> length x" "int (length x) \<le> 2 ^ 29"
  shows "\<exists>re im k. fftComplex x = Returns (re, im)
           \<and> int (length re) = nextPow2 (int (length x))
           \<and> int (length im) = nextPow2 (int (length x))
           \<and> nextPow2 (int (length x)) = 2 ^ k \<and> 1 \<le> k \<and> k \<le> 29
           \<and> int (length x) \<le> 2 ^ k \<and> (2 < length x \<longrightarrow> 2 ^ (k - 1) < int (length x))
           \<and> size_loop (2 ^ k) 2
                 (bitrev_loop (2 ^ k) 0 0
                    (x @ replicate (2 ^ k - length x) (Some 0), replicate (2 ^ k) (Some 0)))
               = Some (re, im)"
  using assms(2) by (rule fftComplex_total)

theorem fftComplex_pads_to_nextPow2_witness:
  "1 \<le> length [Some 1, Some 0, Some (0::real)]
   \<and> int (length [Some 1, Some 0, Some (0::real)]) \<le> 2 ^ 29
   \<and> (\<exists>re im. fftComplex [Some 1, Some 0, Some 0] = Returns (re, im)
          \<and> length re = 4 \<and> length im = 4)"
  using fftComplex_pads_to_nextPow2 [of "[Some 1, Some 0, Some 0]"]
  by (simp add: nextPow2_3) (metis of_nat_eq_iff of_nat_numeral)

text \<open>
  Beyond \<open>2^29\<close> elements the 32-bit shifts overflow. For \<open>2^29 + 1\<close> elements the padded
  length is \<open>2^30\<close>, \<open>size <<= 1\<close> wraps to \<open>-2^31\<close> after the last stage, and the loop
  over \<open>start\<close> then never ends. For \<open>2^30 + 1\<close> elements \<open>nextPow2\<close> is \<open>-2^31\<close> and the
  allocation of \<open>re\<close> throws a RangeError.
\<close>

theorem fftComplex_large_counterexample:
  "fftComplex (replicate (2 ^ 29 + 1) (Some 0)) = Diverges
   \<and> fftComplex (replicate (2 ^ 30 + 1) (Some 0)) = Throws RangeError"
proof
  show "fftComplex (replicate (2 ^ 29 + 1) (Some 0)) = Diverges"
    by (rule fftComplex_diverges) simp_all
  show "fftComplex (replicate (2 ^ 30 + 1) (Some 0)) = Throws RangeError"
    by (rule fftComplex_throws) simp
qed


lemma nextPow2_ge:
  assumes "n \<le> 2 ^ 29"
  shows "n \<le> nextPow2 n"
  using nextPow2_small [OF assms] by auto

lemma length_magnitudes: "0 \<le> N \<Longrightarrow> int (length (magnitudes N ri)) = N div 2"
  by (simp add: magnitudes_def)

lemma analyze_returns:
  assumes "0 \<le> N" "N \<le> 2 ^ 29"
  shows "\<exists>re im. fftComplex (apply_window w (segment samples N)) = Returns (re, im)
           \<and> int (length re) = nextPow2 N \<and> int (length im) = nextPow2 N
           \<and> analyze samples N w = Returns (magnitudes N (re, im))"
proof -
  let ?x = "apply_window w (segment samples N)"
  have len: "int (length ?x) = N" using assms(1) by (simp add: apply_window_def)
  then have "int (length ?x) \<le> 2 ^ 29" using assms(2) by simp
  then obtain re im where "fftComplex ?x = Returns (re, im)"
    "int (length re) = nextPow2 (int (length ?x))" "int (length im) = nextPow2 (int (length ?x))"
    using fftComplex_total [of ?x] by blast
  then show ?thesis using len assms(1) by (simp add: analyze_eq)
qed

text \<open>
  Claim C3, amended. analyze never fails with InvalidFftSize. A negative FFT size fails
  with the RangeError of the allocation of the segment, before anything is computed. For
  every other FFT size up to \<open>2^29\<close>, a power of two or not, analyze returns: the FFT runs
  on \<open>nextPow2(fft_size) \<ge> fft_size\<close> points, the segment padded with zeros, and
  \<open>floor(fft_size / 2)\<close> magnitudes come back.
\<close>

theorem analyze_rounds_up:
  assumes "N \<le> 2 ^ 29"
  shows "if N < 0 then analyze samples N w = Throws RangeError
         else (\<exists>re im. fftComplex (apply_window w (segment samples N)) = Returns (re, im)
                 \<and> int (length re) = nextPow2 N \<and> N \<le> nextPow2 N
                 \<and> analyze samples N w = Returns (magnitudes N (re, im))
                 \<and> int (length (magnitudes N (re, im))) = N div 2)"
proof (cases "N < 0")
  case True
  then show ?thesis by (simp add: analyze_negative)
next
  case False
  then have N: "0 \<le> N" by simp
  obtain re im where "fftComplex (apply_window w (segment samples N)) = Returns (re, im)"
    "int (length re) = nextPow2 N" "analyze samples N w = Returns (magnitudes N (re, im))"
    using analyze_returns [OF N assms] by blast
  then show ?thesis
    using False nextPow2_ge [OF assms] length_magnitudes [OF N] by auto
qed

theorem analyze_rounds_up_witness:
  "(3::int) \<le> 2 ^ 29
   \<and> (\<exists>re im. fftComplex (apply_window NoWindow (segment [Some 1] 3)) = Returns (re, im)
          \<and> int (length re) = 4
          \<and> analyze [Some 1] 3 NoWindow = Returns (magnitudes 3 (re, im))
          \<and> int (length (magnitudes 3 (re, im))) = 1)"
  using analyze_rounds_up [of 3 "[Some 1]" NoWindow]
  by (simp add: nextPow2_3)

text \<open>
  Claim C2, amended. For every FFT size \<open>N = 2^k\<close> with \<open>k \<le> 29\<close>, every buffer and either
  window, analyze returns a magnitude array of length exactly \<open>N / 2\<close> (rounded down for
  \<open>N = 1\<close>), and the value of every bin \<open>j < N / 2\<close> is \<open>2 * hypot(re[j], im[j]) / N\<close>, where
  \<open>(re, im)\<close> is what fftComplex returns on the windowed segment, the first \<open>N\<close> samples
  padded with zeros.
\<close>

theorem analyze_magnitudes:
  assumes "N = 2 ^ k" "k \<le> 29"
  shows "\<exists>re im mags. fftComplex (apply_window w (segment samples N)) = Returns (re, im)
           \<and> analyze samples N w = Returns mags
           \<and> int (length mags) = N div 2
           \<and> (\<forall>j. int j < N div 2 \<longrightarrow>
                  mags ! j = map_option (\<lambda>h. 2 * h / real_of_int N) (nhypot (re ! j) (im ! j)))"
proof -
  have N0: "0 \<le> N" using assms(1) by simp
  have "(2::int) ^ k \<le> 2 ^ 29" using assms(2) by (intro power_increasing) simp_all
  then have N29: "N \<le> 2 ^ 29" using assms(1) by simp
  obtain re im where ri: "fftComplex (apply_window w (segment samples N)) = Returns (re, im)"
    "int (length re) = nextPow2 N" "int (length im) = nextPow2 N"
    "analyze samples N w = Returns (magnitudes N (re, im))"
    using analyze_returns [OF N0 N29] by blast
  have ge: "N \<le> int (length re)" "N \<le> int (length im)"
    using ri(2,3) nextPow2_ge [OF N29] by simp_all
  have "mags_j = map_option (\<lambda>h. 2 * h / real_of_int N) (nhypot (re ! j) (im ! j))"
    if "int j < N div 2" "mags_j = magnitudes N (re, im) ! j" for j mags_j
  proof -
    have j: "j < nat (N div 2)" using that(1) by simp
    have "int j < N" using that(1) N0 by linarith
    then have "int j < int (length re)" "int j < int (length im)" using ge by simp_all
    then have "arr_get re (int j) = re ! j" "arr_get im (int j) = im ! j"
      by (simp_all add: arr_get_def)
    then show ?thesis
      using j that(2) by (simp add: magnitudes_def magnitude_def mult.commute)
  qed
  then show ?thesis
    using ri(1,4) length_magnitudes [OF N0, of "(re, im)"] by blast
qed

theorem analyze_magnitudes_witness:
  "(4::int) = 2 ^ 2 \<and> (2::nat) \<le> 29
   \<and> (\<exists>re im mags. fftComplex (apply_window Hann (segment [Some 1, Some 2] 4)) = Returns (re, im)
           \<and> analyze [Some 1, Some 2] 4 Hann = Returns mags
           \<and> int (length mags) = 2
           \<and> (\<forall>j. int j < 2 \<longrightarrow>
                  mags ! j = map_option (\<lambda>h. 2 * h / 4) (nhypot (re ! j) (im ! j))))"
  using analyze_magnitudes [of 4 2 Hann "[Some 1, Some 2]"]
  by simp

lemma nextPow2_2_31: "nextPow2 (2 ^ 31) = - (2 ^ 31)"
  by (simp add: nextPow2_def clz32_def shl32_def bit_length_rec bit_length_0)

text \<open>
  Large powers of two as FFT size. With \<open>2^30\<close> the call never returns: \<open>size <<= 1\<close> wraps
  to \<open>-2^31\<close> after the last stage and the loop over \<open>start\<close> does not end. With \<open>2^31\<close> the
  call throws: \<open>nextPow2\<close> is \<open>-2^31\<close> and the allocation of \<open>re\<close> fails with a RangeError.
\<close>

theorem analyze_large_counterexample:
  "analyze [Some 1] (2 ^ 30) NoWindow = Diverges \<and> analyze [Some 1] (2 ^ 30) Hann = Diverges
   \<and> analyze [Some 1] (2 ^ 31) NoWindow = Throws RangeError"
proof -
  have "fftComplex (apply_window w (segment [Some 1] (2 ^ 30))) = Diverges" for w
    by (rule fftComplex_diverges) (simp_all add: apply_window_def)
  moreover have "fftComplex (apply_window NoWindow (segment [Some 1] (2 ^ 31))) = Throws RangeError"
    using nextPow2_2_31 by (simp add: fftComplex_def new_array_def apply_window_def)
  ultimately show ?thesis by (simp add: analyze_eq)
qed


lemma hann_weight_formula:
  assumes "0 \<le> N" "N \<noteq> 1"
  shows "hann_weight (nat N) n = Some (0.5 * (1 - cos (2 * pi * real n / (real_of_int N - 1))))"
  using assms by (simp add: hann_weight_def)

text \<open>
  Claim C6. With the Hann window, analyze hands to the FFT the segment of length \<open>N\<close> on
  which applyHann has run, and applyHann multiplies every sample \<open>n\<close> of the segment by
  \<open>0.5 * (1 - cos(2 pi n / (N - 1)))\<close>. For \<open>N = 1\<close> that expression is \<open>0 / 0\<close> inside the
  cosine, which is NaN in the code as well.
\<close>

theorem hann_applied_before_fft:
  assumes "0 \<le> N" "n < nat N"
  shows "analyze samples N Hann =
           (case fftComplex (applyHann (segment samples N)) of
              Returns ri \<Rightarrow> Returns (magnitudes N ri)
            | Throws e \<Rightarrow> Throws e
            | Diverges \<Rightarrow> Diverges)
       \<and> length (segment samples N) = nat N
       \<and> applyHann (segment samples N) ! n
           = nmul (segment samples N ! n) (hann_weight (nat N) n)
       \<and> hann_weight (nat N) n =
           (if N = 1 then None
            else Some (0.5 * (1 - cos (2 * pi * real n / (real_of_int N - 1)))))"
  using assms
  by (simp add: analyze_eq apply_window_def applyHann_nth hann_weight_formula)
     (simp add: hann_weight_def)

theorem hann_applied_before_fft_witness:
  "(0::int) \<le> 4 \<and> 1 < nat 4
   \<and> analyze [Some 1, Some 2] 4 Hann =
           (case fftComplex (applyHann (segment [Some 1, Some 2] 4)) of
              Returns ri \<Rightarrow> Returns (magnitudes 4 ri)
            | Throws e \<Rightarrow> Throws e
            | Diverges \<Rightarrow> Diverges)
   \<and> segment [Some 1, Some 2] 4 = [Some 1, Some 2, Some 0, Some 0]
   \<and> applyHann (segment [Some 1, Some 2] 4) ! 1
       = Some (2 * (0.5 * (1 - cos (2 * pi * 1 / 3))))"
  using hann_applied_before_fft [of 4 1 "[Some 1, Some 2]"]
  by (simp add: segment_def replicate_small)





text \<open>
  In exact arithmetic the recurrence yields the twiddle factor \<open>exp(i k theta)\<close> at the
  \<open>k\<close>-th butterfly of a block.
\<close>

lemma twiddle_iterate:
  "(twiddle_next (Some (cos t), Some (sin t)) ^^ k) (Some 1, Some 0)
     = (Some (cos (real k * t)), Some (sin (real k * t)))"
proof (induction k)
  case 0
  then show ?case by simp
next
  case (Suc k)
  have "real (Suc k) * t = real k * t + t" by (simp add: algebra_simps)
  then show ?case
    using Suc by (simp add: twiddle_next_def Let_def cos_add sin_add)
qed

end
